theory Spec2Isabelle
  imports Complex_Main "HOL-Library.Word"
begin

section \<open>safe-lock.ino: data\<close>

text \<open>
  The sketch reads the AVR input register \<open>PIND\<close> and uses avr-libc's \<open>_BV\<close>, so
  it is a program for an 8-bit AVR board, where \<open>int\<close> and \<open>unsigned int\<close> have
  16 bits. \<open>uint16_t\<close> is \<open>16 word\<close>, \<open>uint8_t\<close> is \<open>8 word\<close>. The two
  \<open>int\<close> variables \<open>servopos\<close> and \<open>pos\<close> only ever hold 0, 180 and 0..8,
  and \<open>charpos\<close> only 0..34, so they are modelled without a width.
\<close>

type_synonym uint16 = "16 word"
type_synonym uint8 = "8 word"

text \<open>One row of \<open>uint16_t pulses[100][2]\<close>: column 0 (high), column 1 (low).\<close>

type_synonym pulse_pair = "uint16 \<times> uint16"

text \<open>
  What the sketch does to the outside world, in the order it does it. The
  \<open>delayMicroseconds\<close> of the polling loops is not logged: one poll is one pin reading.
  \<open>SerialPrintlnBuf\<close> is \<open>Serial.println(str)\<close> on the 34-byte buffer; the buffer
  has no terminator, so the event records the buffer that was passed.
\<close>

datatype event =
    SerialPrint string
  | SerialPrintln string
  | SerialPrintlnBuf "char list"
  | SerialPrintlnNum nat
  | Tone nat nat
  | NoTone nat
  | Delay nat
  | ServoWrite int

text \<open>
  C leaves an access outside an array undefined. The model stops with a fault at the
  first such access.
\<close>

datatype fault = PulsesOutOfBounds | CodeOutOfBounds

record lock_state =
  pulses :: "pulse_pair list"
  currentpulse :: uint8
  servopos :: int
  pos :: int
  events :: "event list"

definition buzzer :: nat where
  "buzzer = 9"

definition MAXPULSE :: nat where
  "MAXPULSE = 65000"

definition RESOLUTION :: uint16 where
  "RESOLUTION = 20"

definition PULSES_CAPACITY :: nat where
  "PULSES_CAPACITY = 100"

definition numstrs :: "string list" where
  "numstrs =
    [''1101000100101110101010000101011111'',
     ''1101000100101110110000000011111111'',
     ''1101000100101110101000000101111111'',
     ''1101000100101110111000000001111111'',
     ''1101000100101110100100000110111111'',
     ''1101000100101110110100000010111111'',
     ''1101000100101110101100000100111111'',
     ''1101000100101110111100000000111111'',
     ''1101000100101110100010000111011111'',
     ''1101000100101110110010000011011111'']"

definition code :: "int list" where
  "code = [5, 5, 6, 8, 7, 2, 8, 0]"

text \<open>
  The globals after static initialisation: everything is zero. \<open>setup\<close> changes
  none of them (it writes the angle 0 to the servo and a greeting to the serial port).
\<close>

definition initial_state :: lock_state where
  "initial_state =
     \<lparr>pulses = replicate 100 (0, 0), currentpulse = 0, servopos = 0, pos = 0, events = []\<rparr>"

definition emit :: "event list \<Rightarrow> lock_state \<Rightarrow> lock_state" where
  "emit es s = s\<lparr>events := events s @ es\<rparr>"

section \<open>safe-lock.ino: buzz and togglelock\<close>

definition buzz :: "bool \<Rightarrow> lock_state \<Rightarrow> lock_state" where
  "buzz good s =
     emit [NoTone buzzer]
       (if \<not> good then emit [Tone buzzer 250, Delay 300] s
        else emit [Tone buzzer 1000, Delay 300] s)"

definition togglelock :: "lock_state \<Rightarrow> lock_state" where
  "togglelock s =
     (let s1 = emit [SerialPrintln ''Congratulations!''] s;
          s2 = (if servopos s1 = 0 then s1\<lparr>servopos := 180\<rparr> else s1\<lparr>servopos := 0\<rparr>)
      in emit [ServoWrite (servopos s2)] s2)"

section \<open>safe-lock.ino: getvalue\<close>

text \<open>
  \<open>strncmp\<close> on C strings. A list is the bytes of the string; reading at its end
  gives the terminating NUL of a string literal. The 34-byte buffer \<open>str\<close> has no
  terminator, and with \<open>n = 34\<close> the comparison never reads past it.
\<close>

definition byte_at_head :: "char list \<Rightarrow> int" where
  "byte_at_head s = (case s of [] \<Rightarrow> 0 | c # _ \<Rightarrow> of_char c)"

fun strncmp :: "char list \<Rightarrow> char list \<Rightarrow> nat \<Rightarrow> int" where
  "strncmp s1 s2 0 = 0"
| "strncmp s1 s2 (Suc n) =
     (let c1 = byte_at_head s1; c2 = byte_at_head s2
      in if c1 \<noteq> c2 then c1 - c2
         else if c1 = 0 then 0
         else strncmp (tl s1) (tl s2) n)"

text \<open>
  The first \<open>for\<close> loop of \<open>getvalue\<close>. \<open>ps\<close> and \<open>cp\<close> are the globals
  \<open>pulses\<close> and \<open>currentpulse\<close>; \<open>str\<close> is the local buffer, \<open>out\<close> the serial
  output so far. Both products are \<open>uint16_t * int\<close>, computed in 16-bit unsigned
  arithmetic on the AVR, so they wrap modulo 65536.
\<close>

function decode_loop ::
  "pulse_pair list \<Rightarrow> uint8 \<Rightarrow> uint8 \<Rightarrow> nat \<Rightarrow> char list \<Rightarrow> event list
     \<Rightarrow> fault + (nat \<times> char list \<times> event list)" where
  "decode_loop ps cp i charpos str out =
     (if i < cp \<and> charpos < 34 then
        (if \<not> unat i < PULSES_CAPACITY then Inl PulsesOutOfBounds
         else if snd (ps ! unat i) * RESOLUTION > 1000 then
           decode_loop ps cp (i + 1) charpos str out
         else if fst (ps ! unat i) * RESOLUTION > 1000 then
           decode_loop ps cp (i + 1) (charpos + 1) (str[charpos := CHR ''1''])
             (out @ [SerialPrint ''1''])
         else
           decode_loop ps cp (i + 1) (charpos + 1) (str[charpos := CHR ''0''])
             (out @ [SerialPrint ''0'']))
      else Inr (charpos, str, out))"
  by pat_completeness auto
termination
proof (relation "measure (\<lambda>(ps, cp, i, charpos, str, out). unat cp - unat i)")
  show "wf (measure (\<lambda>(ps, cp, i, charpos, str, out). unat cp - unat i))"
    by simp
next
  fix ps :: "pulse_pair list" and cp i :: uint8 and charpos :: nat
    and str :: "char list" and out :: "event list"
  assume "i < cp \<and> charpos < 34"
  then have lt: "i < cp" by simp
  then have "unat (i + 1) = Suc (unat i)"
    by unat_arith
  with lt have "unat cp - unat (i + 1) < unat cp - unat i"
    by (simp add: word_less_nat_alt)
  then show "((ps, cp, i + 1, charpos, str, out), (ps, cp, i, charpos, str, out))
      \<in> measure (\<lambda>(ps, cp, i, charpos, str, out). unat cp - unat i)"
    and "((ps, cp, i + 1, charpos + 1, str[charpos := CHR ''1''], out @ [SerialPrint ''1'']),
          (ps, cp, i, charpos, str, out))
      \<in> measure (\<lambda>(ps, cp, i, charpos, str, out). unat cp - unat i)"
    and "((ps, cp, i + 1, charpos + 1, str[charpos := CHR ''0''], out @ [SerialPrint ''0'']),
          (ps, cp, i, charpos, str, out))
      \<in> measure (\<lambda>(ps, cp, i, charpos, str, out). unat cp - unat i)"
    by simp_all
qed

declare decode_loop.simps [simp del]

text \<open>The second \<open>for\<close> loop of \<open>getvalue\<close>: the table is searched in order.\<close>

function match_loop :: "char list \<Rightarrow> uint8 \<Rightarrow> int \<times> event list" where
  "match_loop str i =
     (if i < 10 then
        (if strncmp str (numstrs ! unat i) 34 = 0
         then (int (unat i), [SerialPrintlnNum (unat i)])
         else match_loop str (i + 1))
      else (-1, []))"
  by pat_completeness auto
termination
proof (relation "measure (\<lambda>(str, i). 10 - unat i)")
  show "wf (measure (\<lambda>(str, i). 10 - unat i))"
    by simp
next
  fix str :: "char list" and i :: uint8
  assume lt: "i < 10"
  have step: "\<And>k :: uint8. i < k \<Longrightarrow> unat (i + 1) = Suc (unat i)"
    by unat_arith
  from lt have "unat i < 10"
    by (simp add: word_less_nat_alt)
  with step [OF lt] have "10 - unat (i + 1) < 10 - unat i"
    by simp
  then show "((str, i + 1), (str, i)) \<in> measure (\<lambda>(str, i). 10 - unat i)"
    by simp
qed

declare match_loop.simps [simp del]

text \<open>
  \<open>getvalue\<close> reads the globals \<open>pulses\<close> and \<open>currentpulse\<close>, passed here as
  \<open>ps\<close> and \<open>cp\<close>, and writes to the serial port; it returns \<open>ret\<close> and what it
  printed. \<open>char str[34]\<close> has no initialiser: \<open>junk\<close> is the 34 bytes that the
  stack holds at that place when the function is entered.
\<close>

definition getvalue ::
  "char list \<Rightarrow> pulse_pair list \<Rightarrow> uint8 \<Rightarrow> fault + (int \<times> event list)" where
  "getvalue junk ps cp =
     (case decode_loop ps cp 0 0 junk [] of
        Inl f \<Rightarrow> Inl f
      | Inr (charpos, str, out) \<Rightarrow>
          (let (ret, found) = match_loop str 0
           in Inr (ret, out @ [SerialPrint [CHR 0x0A], SerialPrintlnBuf str] @ found)))"

section \<open>safe-lock.ino: checkcode\<close>

definition checkcode :: "char list \<Rightarrow> lock_state \<Rightarrow> fault + lock_state" where
  "checkcode junk s =
     (case getvalue junk (pulses s) (currentpulse s) of
        Inl f \<Rightarrow> Inl f
      | Inr (num, out) \<Rightarrow>
          (let s1 = emit out s in
           if num = -1 then Inr ((buzz False s1)\<lparr>pos := 0\<rparr>)
           else if \<not> (0 \<le> pos s1 \<and> pos s1 < 8) then Inl CodeOutOfBounds
           else
             (let s2 = (if num = code ! nat (pos s1)
                        then (buzz True s1)\<lparr>pos := pos s1 + 1\<rparr>
                        else (buzz False s1)\<lparr>pos := 0\<rparr>)
              in if pos s2 = 8 then Inr (togglelock (s2\<lparr>pos := 0\<rparr>)) else Inr s2)))"

section \<open>safe-lock.ino: loop\<close>

text \<open>
  The pin is an input: \<open>trace\<close> lists the levels that successive reads of the pin
  return (\<open>True\<close> is HIGH), one per evaluation of a \<open>while\<close> condition. A trace
  that ends while a \<open>while\<close> loop is still polling gives \<open>PinExhausted\<close>: the call
  has not returned within the readings supplied.

  Both \<open>while\<close> loops of \<open>loop\<close> have the same body; \<open>poll_phase True\<close> is the
  first (pin HIGH), \<open>poll_phase False\<close> the second (pin LOW). \<open>count\<close> is
  \<open>highpulse\<close> or \<open>lowpulse\<close>, a \<open>uint16_t\<close> whose \<open>++\<close> wraps.
  \<open>MAXPULSE\<close> is 65000, a \<open>long\<close> constant, so the comparison is on the values.
\<close>

datatype poll_result =
    PinExhausted
  | TimedOut "bool list"
  | PhaseEnded uint16 "bool list"

fun poll_phase :: "bool \<Rightarrow> bool list \<Rightarrow> uint16 \<Rightarrow> uint8 \<Rightarrow> poll_result" where
  "poll_phase level [] count cp = PinExhausted"
| "poll_phase level (pin # rest) count cp =
     (if pin = level then
        (let count' = count + 1
         in if unat count' \<ge> MAXPULSE \<and> cp \<noteq> 0 then TimedOut rest
            else poll_phase level rest count' cp)
      else PhaseEnded count rest)"

datatype loop_result =
    Returned lock_state "bool list"
  | StillPolling
  | Faulted fault

text \<open>The body of both timeout branches: \<open>checkcode(); currentpulse=0; return;\<close>\<close>

definition timed_out :: "char list \<Rightarrow> bool list \<Rightarrow> lock_state \<Rightarrow> loop_result" where
  "timed_out junk rest s =
     (case checkcode junk s of
        Inl f \<Rightarrow> Faulted f
      | Inr s' \<Rightarrow> Returned (s'\<lparr>currentpulse := 0\<rparr>) rest)"

definition loop :: "char list \<Rightarrow> bool list \<Rightarrow> lock_state \<Rightarrow> loop_result" where
  "loop junk trace s =
     (case poll_phase True trace 0 (currentpulse s) of
        PinExhausted \<Rightarrow> StillPolling
      | TimedOut rest \<Rightarrow> timed_out junk rest s
      | PhaseEnded highpulse rest \<Rightarrow>
          (let i = unat (currentpulse s) in
           if \<not> i < PULSES_CAPACITY then Faulted PulsesOutOfBounds
           else
             (let s1 = s\<lparr>pulses := (pulses s)[i := (highpulse, snd (pulses s ! i))]\<rparr>
              in case poll_phase False rest 0 (currentpulse s1) of
                   PinExhausted \<Rightarrow> StillPolling
                 | TimedOut rest' \<Rightarrow> timed_out junk rest' s1
                 | PhaseEnded lowpulse rest' \<Rightarrow>
                     Returned
                       (s1\<lparr>pulses := (pulses s1)[i := (fst (pulses s1 ! i), lowpulse)],
                           currentpulse := currentpulse s1 + 1\<rparr>)
                       rest')))"

text \<open>
  The Arduino core calls \<open>loop\<close> for ever. \<open>main_loop\<close> makes one call for each
  element of \<open>junks\<close>, which gives the stack contents that a \<open>getvalue\<close> made by
  that call would find.
\<close>

primrec main_loop :: "char list list \<Rightarrow> bool list \<Rightarrow> lock_state \<Rightarrow> loop_result" where
  "main_loop [] trace s = Returned s trace"
| "main_loop (junk # junks) trace s =
     (case loop junk trace s of
        Returned s' rest \<Rightarrow> main_loop junks rest s'
      | StillPolling \<Rightarrow> StillPolling
      | Faulted f \<Rightarrow> Faulted f)"

text \<open>
  A captured frame is what \<open>loop\<close> hands to \<open>checkcode\<close> at a timeout: the buffer
  and the index (with the stack contents for \<open>str\<close>). \<open>decode_frames\<close> runs the
  timeout branch once per frame, in order.
\<close>

type_synonym frame = "char list \<times> pulse_pair list \<times> uint8"

definition frame_value :: "frame \<Rightarrow> fault + (int \<times> event list)" where
  "frame_value f = (case f of (junk, ps, cp) \<Rightarrow> getvalue junk ps cp)"

primrec decode_frames :: "frame list \<Rightarrow> lock_state \<Rightarrow> fault + lock_state" where
  "decode_frames [] s = Inr s"
| "decode_frames (f # fs) s =
     (case f of (junk, ps, cp) \<Rightarrow>
        (case checkcode junk (s\<lparr>pulses := ps, currentpulse := cp\<rparr>) of
           Inl e \<Rightarrow> Inl e
         | Inr s' \<Rightarrow> decode_frames fs (s'\<lparr>currentpulse := 0\<rparr>)))"

text \<open>The commands sent to the servo so far: each one is a turn of the latch.\<close>

fun is_servo_write :: "event \<Rightarrow> bool" where
  "is_servo_write (ServoWrite a) = True"
| "is_servo_write e = False"

definition latch_writes :: "lock_state \<Rightarrow> event list" where
  "latch_writes s = filter is_servo_write (events s)"

text \<open>A stack slot that holds 34 zero bytes, for the examples.\<close>

definition junk0 :: "char list" where
  "junk0 = replicate 34 (CHR 0x00)"

text \<open>
  A frame that decodes to key \<open>d\<close>: 34 pairs with a short low phase, whose high phase
  is 51 polls for a \<open>1\<close> (51 * 20 = 1020 > 1000) and 0 polls for a \<open>0\<close>.
\<close>

definition key_frame :: "nat \<Rightarrow> frame" where
  "key_frame d =
     (junk0, map (\<lambda>c. if c = CHR ''1'' then (51, 0) else (0, 0)) (numstrs ! d)
               @ replicate 66 (0, 0), 34)"

text \<open>
  Two states of the examples: one pulse pair (0, 0) captured from the initial state, and
  the state after the timeout that follows it (no key matches, so the failure cue sounds).
\<close>

definition one_captured :: lock_state where
  "one_captured = initial_state\<lparr>currentpulse := 1\<rparr>"

definition after_no_match :: lock_state where
  "after_no_match =
     \<lparr>pulses = replicate 100 (0, 0), currentpulse = 0, servopos = 0, pos = 0,
      events = [SerialPrint ''0'', SerialPrint [CHR 0x0A],
                SerialPrintlnBuf (CHR ''0'' # replicate 33 (CHR 0x00)),
                Tone buzzer 250, Delay 300, NoTone buzzer]\<rparr>"

section \<open>safe-lock.ino: what the two loops of getvalue compute\<close>

text \<open>
  The result of the table search, as the specification words it: the index of the first
  table entry equal to the first 34 characters of the buffer, or -1.
\<close>

definition first_match :: "char list \<Rightarrow> int" where
  "first_match str =
     (case find (\<lambda>i. take 34 str = numstrs ! i) [0..<10] of None \<Rightarrow> - 1 | Some i \<Rightarrow> int i)"

text \<open>
  The tests of the decoding loop as the code computes them, on \<open>uint16_t\<close> with the
  product taken modulo 65536, and the bit string they give for a list of rows.
\<close>

definition is_gap :: "pulse_pair \<Rightarrow> bool" where
  "is_gap p = (snd p * RESOLUTION > 1000)"

definition bit_of :: "pulse_pair \<Rightarrow> char" where
  "bit_of p = (if fst p * RESOLUTION > 1000 then CHR ''1'' else CHR ''0'')"

definition code_bits :: "pulse_pair list \<Rightarrow> string" where
  "code_bits ps = take 34 (map bit_of (filter (\<lambda>p. \<not> is_gap p) ps))"

text \<open>
  Follows the specification's words, for comparison with \<open>code_bits\<close>: a duration
  scaled by the resolution is the product of the two numbers.
\<close>

definition spec_bits :: "pulse_pair list \<Rightarrow> string" where
  "spec_bits ps =
     take 34
       (map (\<lambda>p. if unat (fst p) * unat RESOLUTION > 1000 then CHR ''1'' else CHR ''0'')
          (filter (\<lambda>p. \<not> unat (snd p) * unat RESOLUTION > 1000) ps))"

definition print_bits :: "string \<Rightarrow> event list" where
  "print_bits bs = map (\<lambda>c. SerialPrint [c]) bs"

section \<open>TempHumidityMonitor.ino\<close>


















section \<open>Lemmas: checkcode\<close>

lemma code_nonneg: "0 \<le> p \<Longrightarrow> p < 8 \<Longrightarrow> 0 \<le> code ! nat p"
proof -
  assume "0 \<le> p" "p < 8"
  then have "nat p \<in> {0, 1, 2, 3, 4, 5, 6, 7}" by auto
  then show ?thesis by (auto simp: code_def)
qed

lemma checkcode_fault:
  "getvalue junk (pulses s) (currentpulse s) = Inl f \<Longrightarrow> checkcode junk s = Inl f"
  by (simp add: checkcode_def)

lemma checkcode_no_match:
  assumes "getvalue junk (pulses s) (currentpulse s) = Inr (- 1, out)"
  shows "checkcode junk s =
    Inr (s\<lparr>pos := 0, events := events s @ out @ [Tone buzzer 250, Delay 300, NoTone buzzer]\<rparr>)"
  using assms by (simp add: checkcode_def buzz_def emit_def Let_def)

lemma checkcode_wrong:
  assumes "getvalue junk (pulses s) (currentpulse s) = Inr (num, out)"
    and "0 \<le> pos s" and "pos s < 8" and "num \<noteq> code ! nat (pos s)"
  shows "checkcode junk s =
    Inr (s\<lparr>pos := 0, events := events s @ out @ [Tone buzzer 250, Delay 300, NoTone buzzer]\<rparr>)"
  using assms by (simp add: checkcode_def buzz_def emit_def Let_def)

lemma checkcode_right:
  assumes "getvalue junk (pulses s) (currentpulse s) = Inr (num, out)"
    and "0 \<le> pos s" and "pos s < 7" and "num = code ! nat (pos s)"
  shows "checkcode junk s =
    Inr (s\<lparr>pos := pos s + 1,
           events := events s @ out @ [Tone buzzer 1000, Delay 300, NoTone buzzer]\<rparr>)"
proof -
  from assms code_nonneg [of "pos s"] have "num \<noteq> - 1" by simp
  with assms show ?thesis by (simp add: checkcode_def buzz_def emit_def Let_def)
qed

lemma checkcode_last:
  assumes "getvalue junk (pulses s) (currentpulse s) = Inr (num, out)"
    and "pos s = 7" and "num = code ! nat (pos s)"
  shows "checkcode junk s =
    Inr (s\<lparr>pos := 0, servopos := (if servopos s = 0 then 180 else 0),
           events := events s @ out @ [Tone buzzer 1000, Delay 300, NoTone buzzer]
             @ [SerialPrintln ''Congratulations!'',
                ServoWrite (if servopos s = 0 then 180 else 0)]\<rparr>)"
proof -
  from assms code_nonneg [of "pos s"] have "num \<noteq> - 1" by simp
  with assms show ?thesis by (simp add: checkcode_def buzz_def emit_def togglelock_def Let_def)
qed

lemma checkcode_pos_range:
  assumes "0 \<le> pos s" and "pos s < 8" and "checkcode junk s = Inr s'"
  shows "0 \<le> pos s' \<and> pos s' < 8"
proof (cases "getvalue junk (pulses s) (currentpulse s)")
  case (Inl f)
  with assms show ?thesis by (simp add: checkcode_fault)
next
  case (Inr r)
  obtain num out where r: "r = (num, out)" by (cases r)
  note gv = Inr [unfolded r]
  show ?thesis
  proof (cases "num = code ! nat (pos s)")
    case False
    from checkcode_wrong [OF gv assms(1,2) False] assms(3) show ?thesis by auto
  next
    case True
    show ?thesis
    proof (cases "pos s = 7")
      case seven: True
      from checkcode_last [OF gv seven True] assms(3) show ?thesis by auto
    next
      case False
      with assms have "pos s < 7" by simp
      from checkcode_right [OF gv assms(1) this True] assms(3) \<open>pos s < 7\<close> assms(1)
      show ?thesis by auto
    qed
  qed
qed

section \<open>Lemmas: getvalue returns, and the position stays in range\<close>

lemma decode_loop_total:
  "unat cp \<le> 100 \<Longrightarrow> \<exists>r. decode_loop ps cp i charpos str out = Inr r"
proof (induction ps cp i charpos str out rule: decode_loop.induct)
  case (1 ps cp i charpos str out)
  show ?case
  proof (cases "i < cp \<and> charpos < 34")
    case False
    then have "decode_loop ps cp i charpos str out = Inr (charpos, str, out)"
      by (subst decode_loop.simps) auto
    then show ?thesis by simp
  next
    case True
    with "1.prems" have inb: "unat i < PULSES_CAPACITY"
      by (simp add: PULSES_CAPACITY_def word_less_nat_alt)
    from True inb "1.IH" "1.prems" show ?thesis
      by (auto simp: decode_loop.simps [of ps cp i charpos str out])
  qed
qed

lemma getvalue_total:
  "unat cp \<le> 100 \<Longrightarrow> \<exists>num out. getvalue junk ps cp = Inr (num, out)"
proof -
  assume "unat cp \<le> 100"
  from decode_loop_total [OF this, of ps 0 0 junk "[]"]
  obtain r where "decode_loop ps cp 0 0 junk [] = Inr r" by blast
  then show ?thesis
    by (cases r) (auto simp: getvalue_def split: prod.splits)
qed

lemma checkcode_total:
  assumes "0 \<le> pos s" and "pos s < 8" and "unat (currentpulse s) \<le> 100"
  shows "\<exists>s'. checkcode junk s = Inr s'"
proof -
  from getvalue_total [OF assms(3)] obtain num out
    where gv: "getvalue junk (pulses s) (currentpulse s) = Inr (num, out)" by blast
  show ?thesis
  proof (cases "num = code ! nat (pos s)")
    case False
    from checkcode_wrong [OF gv assms(1,2) False] show ?thesis by blast
  next
    case True
    show ?thesis
    proof (cases "pos s = 7")
      case seven: True
      from checkcode_last [OF gv seven True] show ?thesis by blast
    next
      case False
      with assms have "pos s < 7" by simp
      from checkcode_right [OF gv assms(1) this True] show ?thesis by blast
    qed
  qed
qed

lemma timed_out_pos_range:
  assumes "0 \<le> pos s" and "pos s < 8" and "timed_out junk rest s = Returned s' rest'"
  shows "0 \<le> pos s' \<and> pos s' < 8"
proof (cases "checkcode junk s")
  case (Inl f)
  with assms(3) show ?thesis by (simp add: timed_out_def)
next
  case (Inr t)
  with assms(3) have "s' = t\<lparr>currentpulse := 0\<rparr>" by (simp add: timed_out_def)
  with checkcode_pos_range [OF assms(1,2) Inr] show ?thesis by simp
qed

lemma loop_pos_range:
  assumes "0 \<le> pos s" and "pos s < 8" and "loop junk trace s = Returned s' rest"
  shows "0 \<le> pos s' \<and> pos s' < 8"
proof (cases "poll_phase True trace 0 (currentpulse s)")
  case PinExhausted
  with assms(3) show ?thesis by (simp add: loop_def)
next
  case (TimedOut r)
  with assms(3) have "timed_out junk r s = Returned s' rest" by (simp add: loop_def)
  from timed_out_pos_range [OF assms(1,2) this] show ?thesis .
next
  case (PhaseEnded h r)
  define i where "i = unat (currentpulse s)"
  define s1 where "s1 = s\<lparr>pulses := (pulses s)[i := (h, snd (pulses s ! i))]\<rparr>"
  have p1: "0 \<le> pos s1" "pos s1 < 8" using assms(1,2) by (simp_all add: s1_def)
  from assms(3) PhaseEnded have inb: "i < PULSES_CAPACITY"
    by (auto simp: loop_def Let_def i_def split: if_splits)
  show ?thesis
  proof (cases "poll_phase False r 0 (currentpulse s1)")
    case PinExhausted
    with assms(3) PhaseEnded inb show ?thesis
      by (simp add: loop_def Let_def i_def s1_def)
  next
    case (TimedOut r')
    with assms(3) PhaseEnded inb have "timed_out junk r' s1 = Returned s' rest"
      by (simp add: loop_def Let_def i_def s1_def)
    from timed_out_pos_range [OF p1 this] show ?thesis .
  next
    case low: (PhaseEnded l r')
    with assms(3) PhaseEnded inb have "pos s' = pos s1"
      by (auto simp: loop_def Let_def i_def s1_def)
    with p1 show ?thesis by simp
  qed
qed

lemma main_loop_pos_range:
  "0 \<le> pos s \<Longrightarrow> pos s < 8 \<Longrightarrow> main_loop junks trace s = Returned s' rest
     \<Longrightarrow> 0 \<le> pos s' \<and> pos s' < 8"
proof (induction junks arbitrary: trace s)
  case Nil
  then show ?case by simp
next
  case (Cons junk junks)
  show ?case
  proof (cases "loop junk trace s")
    case (Returned t r)
    from loop_pos_range [OF Cons.prems(1,2) Returned] Cons.IH [of t r] Cons.prems(3) Returned
    show ?thesis by simp
  next
    case StillPolling
    with Cons.prems(3) show ?thesis by simp
  next
    case (Faulted f)
    with Cons.prems(3) show ?thesis by simp
  qed
qed

section \<open>Lemmas: the polling loops\<close>

lemma unat_succ_below:
  "unat (c :: uint16) < 65535 \<Longrightarrow> unat (c + 1) = Suc (unat c)"
  by (simp add: unat_word_ariths)

lemma poll_phase_timeout:
  "cp \<noteq> 0 \<Longrightarrow> unat c + n = 65000 \<Longrightarrow> 0 < n
     \<Longrightarrow> poll_phase level (replicate n level @ rest) c cp = TimedOut rest"
proof (induction n arbitrary: c)
  case 0
  then show ?case by simp
next
  case (Suc n)
  from Suc.prems have u: "unat (c + 1) = Suc (unat c)"
    by (intro unat_succ_below) simp
  show ?case
  proof (cases "n = 0")
    case True
    with Suc.prems u show ?thesis by (simp add: MAXPULSE_def Let_def)
  next
    case False
    with Suc.prems u have "poll_phase level (replicate n level @ rest) (c + 1) cp = TimedOut rest"
      by (intro Suc.IH) simp_all
    with Suc.prems u False show ?thesis by (simp add: MAXPULSE_def Let_def)
  qed
qed

lemma poll_phase_ends:
  "cp \<noteq> 0 \<Longrightarrow> unat c + n < 65000
     \<Longrightarrow> poll_phase level (replicate n level @ (\<not> level) # rest) c cp
         = PhaseEnded (c + of_nat n) rest"
proof (induction n arbitrary: c)
  case 0
  then show ?case by simp
next
  case (Suc n)
  from Suc.prems have u: "unat (c + 1) = Suc (unat c)"
    by (intro unat_succ_below) simp
  with Suc.prems have "poll_phase level (replicate n level @ (\<not> level) # rest) (c + 1) cp
      = PhaseEnded (c + 1 + of_nat n) rest"
    by (intro Suc.IH) simp_all
  with Suc.prems u show ?case by (simp add: MAXPULSE_def Let_def add.assoc)
qed

lemma poll_phase_idle:
  "poll_phase level (replicate n level @ (\<not> level) # rest) c 0 = PhaseEnded (c + of_nat n) rest"
proof (induction n arbitrary: c)
  case 0
  then show ?case by simp
next
  case (Suc n)
  from Suc.IH [of "c + 1"] show ?case by (simp add: Let_def add.assoc)
qed

lemma poll_phase_idle_no_timeout: "poll_phase level trace c 0 \<noteq> TimedOut rest"
  by (induction trace arbitrary: c) (simp_all add: Let_def)

section \<open>Lemmas: one call of loop\<close>

lemma loop_high_timeout:
  assumes "currentpulse s \<noteq> 0"
  shows "loop junk (replicate 65000 True @ rest) s = timed_out junk rest s"
  using poll_phase_timeout [OF assms, of 0 65000 True rest]
  by (simp add: loop_def)

lemma loop_low_timeout:
  assumes "currentpulse s \<noteq> 0" and "unat (currentpulse s) < 100" and "n < 65000"
  shows "loop junk (replicate n True @ False # replicate 65000 False @ rest) s
    = timed_out junk rest
        (s\<lparr>pulses := (pulses s)[unat (currentpulse s)
                 := (of_nat n, snd (pulses s ! unat (currentpulse s)))]\<rparr>)"
  using poll_phase_ends [OF assms(1), of 0 n True "replicate 65000 False @ rest"]
    poll_phase_timeout [OF assms(1), of 0 65000 False rest] assms(2,3)
  by (simp add: loop_def PULSES_CAPACITY_def Let_def)

lemma loop_pair:
  assumes "currentpulse s \<noteq> 0" and "unat (currentpulse s) < 100"
    and "n < 65000" and "m < 65000" and "length (pulses s) = 100"
  shows "loop junk (replicate n True @ False # replicate m False @ True # rest) s
    = Returned
        (s\<lparr>pulses := (pulses s)[unat (currentpulse s) := (of_nat n, of_nat m)],
            currentpulse := currentpulse s + 1\<rparr>) rest"
  using poll_phase_ends [OF assms(1), of 0 n True "replicate m False @ True # rest"]
    poll_phase_ends [OF assms(1), of 0 m False rest] assms(2-)
  by (simp add: loop_def PULSES_CAPACITY_def Let_def)

lemma loop_first_pair:
  assumes "currentpulse s = 0" and "length (pulses s) = 100"
  shows "loop junk (replicate n True @ False # replicate m False @ True # rest) s
    = Returned (s\<lparr>pulses := (pulses s)[0 := (of_nat n, of_nat m)], currentpulse := 1\<rparr>) rest"
  using poll_phase_idle [of True n "replicate m False @ True # rest" 0]
    poll_phase_idle [of False m rest 0] assms
  by (simp add: loop_def PULSES_CAPACITY_def Let_def)

lemma loop_overflow:
  assumes "100 \<le> unat (currentpulse s)" and "n < 65000"
  shows "loop junk (replicate n True @ False # rest) s = Faulted PulsesOutOfBounds"
proof -
  from assms(1) have nz: "currentpulse s \<noteq> 0" by auto
  from poll_phase_ends [OF nz, of 0 n True rest] assms show ?thesis
    by (simp add: loop_def PULSES_CAPACITY_def Let_def)
qed

lemma loop_idle:
  assumes "currentpulse s = 0" and "length (pulses s) = 100"
  shows "loop junk trace s = StillPolling
    \<or> (\<exists>h l rest. loop junk trace s
          = Returned (s\<lparr>pulses := (pulses s)[0 := (h, l)], currentpulse := 1\<rparr>) rest)"
proof (cases "poll_phase True trace 0 0")
  case PinExhausted
  with assms show ?thesis by (simp add: loop_def)
next
  case (TimedOut r)
  with poll_phase_idle_no_timeout show ?thesis by blast
next
  case (PhaseEnded h r)
  show ?thesis
  proof (cases "poll_phase False r 0 0")
    case PinExhausted
    with PhaseEnded assms show ?thesis by (simp add: loop_def PULSES_CAPACITY_def Let_def)
  next
    case (TimedOut r')
    with poll_phase_idle_no_timeout show ?thesis by blast
  next
    case low: (PhaseEnded l r')
    with PhaseEnded assms have "loop junk trace s
        = Returned (s\<lparr>pulses := (pulses s)[0 := (h, l)], currentpulse := 1\<rparr>) r'"
      by (simp add: loop_def PULSES_CAPACITY_def Let_def)
    then show ?thesis by blast
  qed
qed

section \<open>Lemmas: a sequence of frames\<close>

lemma latch_writes_alt: "latch_writes s = filter is_servo_write (events s)"
  by (simp add: latch_writes_def)

lemma decode_loop_no_servo:
  "decode_loop ps cp i charpos str out = Inr (c, str', out')
     \<Longrightarrow> filter is_servo_write out' = filter is_servo_write out"
proof (induction ps cp i charpos str out rule: decode_loop.induct)
  case (1 ps cp i charpos str out)
  show ?case
  proof (cases "i < cp \<and> charpos < 34")
    case False
    with "1.prems" show ?thesis
      by (simp add: decode_loop.simps [of ps cp i charpos str out])
  next
    case True
    with "1.prems" have inb: "unat i < PULSES_CAPACITY"
      by (auto simp: decode_loop.simps [of ps cp i charpos str out] split: if_splits)
    from True inb "1.IH" "1.prems" show ?thesis
      by (auto simp: decode_loop.simps [of ps cp i charpos str out]
          split: if_splits)
  qed
qed

lemma match_loop_no_servo: "filter is_servo_write (snd (match_loop str i)) = []"
proof (induction str i rule: match_loop.induct)
  case (1 str i)
  then show ?case
    by (auto simp: match_loop.simps [of str i])
qed

lemma getvalue_no_servo:
  assumes "getvalue junk ps cp = Inr (num, out)"
  shows "filter is_servo_write out = []"
proof (cases "decode_loop ps cp 0 0 junk []")
  case (Inl f)
  with assms show ?thesis by (simp add: getvalue_def)
next
  case (Inr r)
  obtain c str out' where r: "r = (c, str, out')" by (cases r)
  from decode_loop_no_servo [OF Inr [unfolded r]] have "filter is_servo_write out' = []"
    by simp
  with assms Inr r match_loop_no_servo [of str 0] show ?thesis
    by (auto simp: getvalue_def split: prod.splits)
qed

lemma decode_frames_append:
  "decode_frames (fs @ gs) s
     = (case decode_frames fs s of Inl e \<Rightarrow> Inl e | Inr s' \<Rightarrow> decode_frames gs s')"
  by (induction fs arbitrary: s) (auto split: sum.splits prod.splits)

lemma decode_frames_progress:
  assumes "0 \<le> pos s" and "nat (pos s) + length fs < 8"
    and "\<forall>j<length fs. \<exists>out. frame_value (fs ! j) = Inr (code ! (nat (pos s) + j), out)"
  shows "\<exists>s'. decode_frames fs s = Inr s' \<and> pos s' = pos s + int (length fs)
           \<and> servopos s' = servopos s \<and> latch_writes s' = latch_writes s"
  using assms
proof (induction fs arbitrary: s)
  case Nil
  then show ?case by simp
next
  case (Cons f fs)
  obtain junk ps cp where f: "f = (junk, ps, cp)" by (cases f)
  define s0 where "s0 = s\<lparr>pulses := ps, currentpulse := cp\<rparr>"
  from Cons.prems(3) [rule_format, of 0] f obtain out
    where gv: "getvalue junk (pulses s0) (currentpulse s0) = Inr (code ! nat (pos s0), out)"
    by (auto simp: frame_value_def s0_def)
  from Cons.prems have p0: "0 \<le> pos s0" "pos s0 < 7" by (simp_all add: s0_def)
  define s1 where "s1 = s0\<lparr>pos := pos s0 + 1,
           events := events s0 @ out @ [Tone buzzer 1000, Delay 300, NoTone buzzer]\<rparr>"
  from checkcode_right [OF gv p0 refl] have cc: "checkcode junk s0 = Inr s1"
    by (simp add: s1_def)
  define s2 where "s2 = s1\<lparr>currentpulse := 0\<rparr>"
  have step: "decode_frames (f # fs) s = decode_frames fs s2"
    using cc by (simp add: f s0_def s2_def)
  have pos2: "pos s2 = pos s + 1" by (simp add: s2_def s1_def s0_def)
  have servo2: "servopos s2 = servopos s" by (simp add: s2_def s1_def s0_def)
  have lw2: "latch_writes s2 = latch_writes s"
    using getvalue_no_servo [OF gv]
    by (simp add: latch_writes_alt s2_def s1_def s0_def)
  have "\<forall>j<length fs. \<exists>out. frame_value (fs ! j) = Inr (code ! (nat (pos s2) + j), out)"
  proof (intro allI impI)
    fix j assume "j < length fs"
    with Cons.prems(3) [rule_format, of "Suc j"] Cons.prems(1) pos2
    show "\<exists>out. frame_value (fs ! j) = Inr (code ! (nat (pos s2) + j), out)"
      by (simp add: nat_add_distrib)
  qed
  moreover from Cons.prems pos2 have "0 \<le> pos s2" "nat (pos s2) + length fs < 8" by simp_all
  ultimately obtain s' where "decode_frames fs s2 = Inr s'"
    "pos s' = pos s2 + int (length fs)" "servopos s' = servopos s2"
    "latch_writes s' = latch_writes s2"
    using Cons.IH [of s2] by blast
  with step pos2 servo2 lw2 show ?case by simp
qed

lemma decode_frames_last:
  assumes "pos s = 7" and "frame_value f = Inr (code ! 7, out)"
  shows "\<exists>s'. decode_frames [f] s = Inr s' \<and> pos s' = 0
           \<and> servopos s' = (if servopos s = 0 then 180 else 0)
           \<and> latch_writes s' = latch_writes s @ [ServoWrite (if servopos s = 0 then 180 else 0)]"
proof -
  obtain junk ps cp where f: "f = (junk, ps, cp)" by (cases f)
  define s0 where "s0 = s\<lparr>pulses := ps, currentpulse := cp\<rparr>"
  from assms f have gv: "getvalue junk (pulses s0) (currentpulse s0) = Inr (code ! nat (pos s0), out)"
    by (simp add: frame_value_def s0_def)
  have p0: "pos s0 = 7" using assms(1) by (simp add: s0_def)
  from checkcode_last [OF gv p0 refl] getvalue_no_servo [OF gv] show ?thesis
    by (simp add: f s0_def latch_writes_alt)
qed

lemma key_frame_value:
  "d \<in> {0, 2, 5, 6, 7, 8} \<Longrightarrow> \<exists>out. frame_value (key_frame d) = Inr (int d, out)"
proof -
  have v: "(case frame_value (key_frame 0) of Inl f \<Rightarrow> False | Inr (n, out) \<Rightarrow> n = 0)"
    "(case frame_value (key_frame 2) of Inl f \<Rightarrow> False | Inr (n, out) \<Rightarrow> n = 2)"
    "(case frame_value (key_frame 5) of Inl f \<Rightarrow> False | Inr (n, out) \<Rightarrow> n = 5)"
    "(case frame_value (key_frame 6) of Inl f \<Rightarrow> False | Inr (n, out) \<Rightarrow> n = 6)"
    "(case frame_value (key_frame 7) of Inl f \<Rightarrow> False | Inr (n, out) \<Rightarrow> n = 7)"
    "(case frame_value (key_frame 8) of Inl f \<Rightarrow> False | Inr (n, out) \<Rightarrow> n = 8)"
    by code_simp+
  assume "d \<in> {0, 2, 5, 6, 7, 8}"
  with v show ?thesis by (auto split: sum.splits prod.splits)
qed

lemma checkcode_one_captured:
  "checkcode junk0 one_captured = Inr (after_no_match\<lparr>currentpulse := 1\<rparr>)"
  by code_simp

section \<open>Lemmas: the table search\<close>

lemma strncmp_fixed_length:
  "length p = n \<Longrightarrow> CHR 0x00 \<notin> set p \<Longrightarrow> strncmp s p n = 0 \<longleftrightarrow> take n s = p"
proof (induction n arbitrary: s p)
  case 0
  then show ?case by simp
next
  case (Suc n)
  then obtain c p' where p: "p = c # p'" by (cases p) auto
  with Suc.prems have c: "c \<noteq> CHR 0x00" and p': "length p' = n" "CHR 0x00 \<notin> set p'"
    by auto
  have "(of_char c :: int) = of_char (CHR 0x00) \<longleftrightarrow> c = CHR 0x00"
    by (rule of_char_eq_iff)
  with c have nz: "(of_char c :: int) \<noteq> 0"
    by simp
  show ?case
  proof (cases s)
    case Nil
    with p nz show ?thesis by (simp add: byte_at_head_def Let_def)
  next
    case (Cons d s')
    show ?thesis
    proof (cases "d = c")
      case True
      with Cons p nz Suc.IH [OF p', of s'] show ?thesis
        by (simp add: byte_at_head_def Let_def)
    next
      case False
      then have "(of_char d :: int) \<noteq> of_char c" by simp
      with Cons p False show ?thesis by (simp add: byte_at_head_def Let_def)
    qed
  qed
qed

lemma numstrs_pattern:
  "i < 10 \<Longrightarrow> length (numstrs ! i) = 34 \<and> CHR 0x00 \<notin> set (numstrs ! i)"
proof -
  have all: "list_all (\<lambda>p. length p = 34 \<and> CHR 0x00 \<notin> set p) numstrs"
    by code_simp
  have len: "length numstrs = 10"
    by (simp add: numstrs_def)
  assume "i < 10"
  with all len show ?thesis
    by (simp add: list_all_length)
qed

lemma strncmp_numstrs:
  "i < 10 \<Longrightarrow> strncmp str (numstrs ! i) 34 = 0 \<longleftrightarrow> take 34 str = numstrs ! i"
  using numstrs_pattern [of i] by (simp add: strncmp_fixed_length)

lemma match_loop_from:
  "k \<le> 10 \<Longrightarrow> fst (match_loop str (of_nat k))
     = (case find (\<lambda>i. take 34 str = numstrs ! i) [k..<10] of None \<Rightarrow> - 1 | Some i \<Rightarrow> int i)"
proof (induction "10 - k" arbitrary: k)
  case 0
  then have k: "k = 10" by simp
  show ?case by (simp add: k match_loop.simps [of str 10])
next
  case (Suc d)
  then have lt: "k < 10" by simp
  then have u: "unat (of_nat k :: uint8) = k"
    by (simp add: unat_of_nat)
  with lt have w: "(of_nat k :: uint8) < 10"
    by (simp add: word_less_nat_alt)
  have nxt: "(of_nat k :: uint8) + 1 = of_nat (Suc k)" by simp
  from Suc.hyps(2) lt have "d = 10 - Suc k" "Suc k \<le> 10" by simp_all
  from Suc.hyps(1) [OF this] have IH: "fst (match_loop str (of_nat (Suc k)))
     = (case find (\<lambda>i. take 34 str = numstrs ! i) [Suc k..<10] of None \<Rightarrow> - 1 | Some i \<Rightarrow> int i)" .
  from lt have upt: "[k..<10] = k # [Suc k..<10]" by (simp add: upt_conv_Cons)
  show ?case
    using w u IH strncmp_numstrs [OF lt, of str]
    by (simp add: match_loop.simps [of str "of_nat k"] upt nxt del: of_nat_Suc)
qed

lemma match_loop_first_match: "fst (match_loop str 0) = first_match str"
  using match_loop_from [of 0 str] by (simp add: first_match_def)


section \<open>Lemmas: the decoding loop\<close>

lemma decode_loop_from:
  assumes "unat cp \<le> 100" and "unat cp \<le> length ps" and "length str = 34"
    and "i \<le> cp" and "charpos \<le> 34"
  shows "decode_loop ps cp i charpos str out =
    (let bs = take (34 - charpos)
                (map bit_of (filter (\<lambda>p. \<not> is_gap p) (drop (unat i) (take (unat cp) ps))))
     in Inr (charpos + length bs,
             take charpos str @ bs @ drop (charpos + length bs) str,
             out @ print_bits bs))"
  using assms
proof (induction ps cp i charpos str out rule: decode_loop.induct)
  case (1 ps cp i charpos str out)
  let ?rows = "\<lambda>j. drop (unat j) (take (unat cp) ps)"
  let ?bs = "\<lambda>j c. take (34 - c) (map bit_of (filter (\<lambda>p. \<not> is_gap p) (?rows j)))"
  show ?case
  proof (cases "i < cp \<and> charpos < 34")
    case False
    have e: "?bs i charpos = []"
    proof (cases "charpos < 34")
      case True
      with False "1.prems"(4) have "i = cp" by simp
      then show ?thesis by simp
    next
      case False
      then show ?thesis by simp
    qed
    from False have base: "decode_loop ps cp i charpos str out = Inr (charpos, str, out)"
      by (subst decode_loop.simps) auto
    show ?thesis
      unfolding base Let_def e by (simp add: print_bits_def)
  next
    case True
    then have lt: "i < cp" and cp34: "charpos < 34" by simp_all
    from lt have ui: "unat i < unat cp" by (simp add: word_less_nat_alt)
    have step: "\<And>k :: uint8. i < k \<Longrightarrow> unat (i + 1) = Suc (unat i)"
      by unat_arith
    note u1 = step [OF lt]
    from ui u1 have le': "i + 1 \<le> cp" by (simp add: word_le_nat_alt)
    from ui "1.prems"(1) have inb: "unat i < PULSES_CAPACITY" by (simp add: PULSES_CAPACITY_def)
    from ui "1.prems"(2) have rows: "?rows i = ps ! unat i # ?rows (i + 1)"
      by (simp add: u1 Cons_nth_drop_Suc [symmetric])
    show ?thesis
    proof (cases "is_gap (ps ! unat i)")
      case gap: True
      then have g: "snd (ps ! unat i) * RESOLUTION > 1000" by (simp add: is_gap_def)
      from gap rows have bs: "?bs i charpos = ?bs (i + 1) charpos" by simp
      from "1.IH"(1) [OF True _ g "1.prems"(1,2,3) le' "1.prems"(5)] inb
      have "decode_loop ps cp (i + 1) charpos str out =
        (let bs = ?bs (i + 1) charpos
         in Inr (charpos + length bs, take charpos str @ bs @ drop (charpos + length bs) str,
                 out @ print_bits bs))" by simp
      with True inb g bs show ?thesis
        by (simp add: decode_loop.simps [of ps cp i charpos str out])
    next
      case nogap: False
      then have g: "\<not> snd (ps ! unat i) * RESOLUTION > 1000" by (simp add: is_gap_def)
      define c where "c = bit_of (ps ! unat i)"
      from nogap rows cp34 have bs: "?bs i charpos = c # ?bs (i + 1) (Suc charpos)"
        by (simp add: c_def take_Cons')
      from cp34 "1.prems"(3) have
        tk: "take (Suc charpos) (str[charpos := c]) = take charpos str @ [c]"
        by (simp add: take_Suc_conv_app_nth)
      have dr: "\<And>n. drop (Suc charpos + n) (str[charpos := c]) = drop (Suc charpos + n) str"
        by simp
      from cp34 have c34: "Suc charpos \<le> 34" by simp
      have len: "length (str[charpos := c]) = 34" using "1.prems"(3) by simp
      have rec: "decode_loop ps cp (i + 1) (charpos + 1) (str[charpos := c])
            (out @ [SerialPrint [c]]) =
        (let bs = ?bs (i + 1) (Suc charpos)
         in Inr (Suc charpos + length bs,
                 take (Suc charpos) (str[charpos := c]) @ bs
                   @ drop (Suc charpos + length bs) (str[charpos := c]),
                 (out @ [SerialPrint [c]]) @ print_bits bs))"
      proof (cases "fst (ps ! unat i) * RESOLUTION > 1000")
        case one: True
        then have "c = CHR ''1''" by (simp add: c_def bit_of_def)
        with "1.IH"(2) [OF True _ g one "1.prems"(1,2) _ le'] inb len c34 show ?thesis
          by simp
      next
        case zero: False
        then have "c = CHR ''0''" by (simp add: c_def bit_of_def)
        with "1.IH"(3) [OF True _ g zero "1.prems"(1,2) _ le'] inb len c34 show ?thesis
          by simp
      qed
      have unfold: "decode_loop ps cp i charpos str out
          = decode_loop ps cp (i + 1) (charpos + 1) (str[charpos := c]) (out @ [SerialPrint [c]])"
        using True inb g by (simp add: decode_loop.simps [of ps cp i charpos str out] c_def bit_of_def)
      show ?thesis
        unfolding unfold rec bs by (simp add: Let_def tk dr print_bits_def)
    qed
  qed
qed

lemma decode_loop_bits:
  assumes "unat cp \<le> 100" and "unat cp \<le> length ps" and "length junk = 34"
  shows "decode_loop ps cp 0 0 junk [] =
    Inr (length (code_bits (take (unat cp) ps)),
         code_bits (take (unat cp) ps) @ drop (length (code_bits (take (unat cp) ps))) junk,
         print_bits (code_bits (take (unat cp) ps)))"
  using decode_loop_from [OF assms, of 0 0 "[]"]
  by (simp add: code_bits_def Let_def)

lemma scaled_no_wrap:
  assumes "unat (d :: uint16) < 3277"
  shows "d * RESOLUTION > 1000 \<longleftrightarrow> unat d * unat RESOLUTION > 1000"
proof -
  from assms have "unat d * 20 < 65536" by simp
  then have "unat (d * 20) = unat d * 20"
    by (simp add: unat_word_ariths)
  then show ?thesis
    by (simp add: RESOLUTION_def word_less_nat_alt)
qed

lemma code_bits_eq_spec_bits:
  assumes "\<forall>p \<in> set ps. unat (fst p) < 3277 \<and> unat (snd p) < 3277"
  shows "code_bits ps = spec_bits ps"
proof -
  from assms have f: "filter (\<lambda>p. \<not> is_gap p) ps
      = filter (\<lambda>p. \<not> unat (snd p) * unat RESOLUTION > 1000) ps"
    by (intro filter_cong) (simp_all add: is_gap_def scaled_no_wrap)
  from assms have m: "map bit_of (filter (\<lambda>p. \<not> unat (snd p) * unat RESOLUTION > 1000) ps)
      = map (\<lambda>p. if unat (fst p) * unat RESOLUTION > 1000 then CHR ''1'' else CHR ''0'')
          (filter (\<lambda>p. \<not> unat (snd p) * unat RESOLUTION > 1000) ps)"
    by (intro map_cong) (simp_all add: bit_of_def scaled_no_wrap)
  show ?thesis
    by (simp only: code_bits_def spec_bits_def f m)
qed


lemma getvalue_returns_first_match:
  assumes "decode_loop ps cp 0 0 junk [] = Inr (charpos, str, out1)"
  shows "\<exists>out. getvalue junk ps cp = Inr (first_match str, out)"
  using assms match_loop_first_match [of str]
  by (cases "match_loop str 0") (simp add: getvalue_def)

lemma short_string_no_match:
  assumes "unat cp \<le> 100" and "unat cp \<le> length ps" and "length junk = 34"
    and "length (code_bits (take (unat cp) ps)) < 34"
    and "junk ! length (code_bits (take (unat cp) ps)) \<notin> {CHR ''0'', CHR ''1''}"
  shows "\<exists>out. getvalue junk ps cp = Inr (- 1, out)"
proof -
  define bs where "bs = code_bits (take (unat cp) ps)"
  define str where "str = bs @ drop (length bs) junk"
  from assms(3,4) have k: "str ! length bs = junk ! length bs" and len: "length str = 34"
    by (simp_all add: str_def bs_def nth_append)
  have bits: "list_all (\<lambda>p. list_all (\<lambda>c. c \<in> {CHR ''0'', CHR ''1''}) p) numstrs"
    by code_simp
  have none: "take 34 str \<noteq> numstrs ! i" if "i < 10" for i
  proof
    assume eq: "take 34 str = numstrs ! i"
    from that bits have "list_all (\<lambda>c. c \<in> {CHR ''0'', CHR ''1''}) (numstrs ! i)"
      by (simp add: list_all_length numstrs_def)
    moreover from numstrs_pattern [OF that] assms(4) have "length bs < length (numstrs ! i)"
      by (simp add: bs_def)
    ultimately have "numstrs ! i ! length bs \<in> {CHR ''0'', CHR ''1''}"
      by (simp add: list_all_length)
    with eq len k assms(5) show False
      by (simp add: bs_def)
  qed
  then have "find (\<lambda>i. take 34 str = numstrs ! i) [0..<10] = None"
    by (simp add: find_None_iff)
  then have "first_match str = - 1"
    by (simp add: first_match_def)
  with getvalue_returns_first_match [OF decode_loop_bits [OF assms(1,2,3)]] show ?thesis
    by (simp add: str_def bs_def)
qed

section \<open>Lemmas: filling the capture buffer\<close>

lemma main_loop_append:
  "main_loop (js @ ks) trace s =
     (case main_loop js trace s of
        Returned s' rest \<Rightarrow> main_loop ks rest s'
      | StillPolling \<Rightarrow> StillPolling
      | Faulted f \<Rightarrow> Faulted f)"
  by (induction js arbitrary: trace s) (auto split: loop_result.splits)

lemma loop_short_pair:
  assumes "length (pulses s) = 100" and "unat (currentpulse s) < 100"
  shows "loop junk (True # False # False # True # rest) s
    = Returned (s\<lparr>pulses := (pulses s)[unat (currentpulse s) := (1, 1)],
                  currentpulse := currentpulse s + 1\<rparr>) rest"
proof (cases "currentpulse s = 0")
  case True
  with loop_first_pair [OF True assms(1), of junk 1 1 rest] show ?thesis by simp
next
  case False
  with loop_pair [OF False assms(2) _ _ assms(1), of 1 1 junk rest] show ?thesis by simp
qed

lemma main_loop_short_pairs:
  "length (pulses s) = 100 \<Longrightarrow> unat (currentpulse s) + k \<le> 100
     \<Longrightarrow> \<exists>s'. main_loop (replicate k junk)
                (concat (replicate k [True, False, False, True]) @ rest) s = Returned s' rest
            \<and> length (pulses s') = 100
            \<and> unat (currentpulse s') = unat (currentpulse s) + k"
proof (induction k arbitrary: s)
  case 0
  then show ?case by simp
next
  case (Suc k)
  define s1 where "s1 = s\<lparr>pulses := (pulses s)[unat (currentpulse s) := (1, 1)],
                  currentpulse := currentpulse s + 1\<rparr>"
  from Suc.prems have lt: "unat (currentpulse s) < 100" by simp
  then have "unat (currentpulse s + 1) = Suc (unat (currentpulse s))"
    by (simp add: unat_word_ariths)
  with Suc.prems have s1: "length (pulses s1) = 100" "unat (currentpulse s1) + k \<le> 100"
    "unat (currentpulse s1) + k = unat (currentpulse s) + Suc k"
    by (simp_all add: s1_def)
  from Suc.IH [OF s1(1,2)] obtain s' where
    "main_loop (replicate k junk) (concat (replicate k [True, False, False, True]) @ rest) s1
       = Returned s' rest"
    "length (pulses s') = 100" "unat (currentpulse s') = unat (currentpulse s1) + k"
    by blast
  with loop_short_pair [OF Suc.prems(1) lt,
      of junk "concat (replicate k [True, False, False, True]) @ rest"] s1(3)
  show ?case by (simp add: s1_def)
qed

section \<open>Lemmas: the environmental monitor\<close>


section \<open>The lock state machine\<close>

text \<open>
  C6. Let \<open>getvalue\<close> return \<open>num\<close> at a lock position 0..7. If \<open>num\<close> is the
  no-match value -1 or differs from the expected digit \<open>code[pos]\<close>, \<open>checkcode\<close>
  sets the position to 0 and sounds the failure cue (tone of 250 Hz), and the state it
  leaves is given by one and the same expression in both cases. If \<open>num\<close> is the
  expected digit, the success cue (1000 Hz) sounds and the position advances (from 7 it
  wraps to 0). The position is one more than before only when \<open>num\<close> was the expected
  digit.
\<close>

theorem checkcode_mismatch_resets:
  assumes "getvalue junk (pulses s) (currentpulse s) = Inr (num, out)"
    and "0 \<le> pos s" and "pos s < 8"
  shows "(num = - 1 \<or> num \<noteq> code ! nat (pos s) \<longrightarrow>
            checkcode junk s =
              Inr (s\<lparr>pos := 0,
                     events := events s @ out @ [Tone buzzer 250, Delay 300, NoTone buzzer]\<rparr>))
       \<and> (num = code ! nat (pos s) \<longrightarrow>
            (\<exists>s'. checkcode junk s = Inr s'
               \<and> pos s' = (if pos s = 7 then 0 else pos s + 1)
               \<and> take 3 (drop (length (events s @ out)) (events s'))
                   = [Tone buzzer 1000, Delay 300, NoTone buzzer]))
       \<and> (\<forall>s'. checkcode junk s = Inr s' \<and> pos s' = pos s + 1 \<longrightarrow> num = code ! nat (pos s))"
proof (intro conjI impI allI)
  assume "num = - 1 \<or> num \<noteq> code ! nat (pos s)"
  with code_nonneg [OF assms(2,3)] have "num \<noteq> code ! nat (pos s)" by auto
  from checkcode_wrong [OF assms this]
  show "checkcode junk s =
      Inr (s\<lparr>pos := 0, events := events s @ out @ [Tone buzzer 250, Delay 300, NoTone buzzer]\<rparr>)" .
next
  assume eq: "num = code ! nat (pos s)"
  show "\<exists>s'. checkcode junk s = Inr s'
               \<and> pos s' = (if pos s = 7 then 0 else pos s + 1)
               \<and> take 3 (drop (length (events s @ out)) (events s'))
                   = [Tone buzzer 1000, Delay 300, NoTone buzzer]"
  proof (cases "pos s = 7")
    case True
    from checkcode_last [OF assms(1) True eq] True show ?thesis by simp
  next
    case False
    with assms(3) have "pos s < 7" by simp
    from checkcode_right [OF assms(1,2) this eq] False show ?thesis by simp
  qed
next
  fix s'
  assume a: "checkcode junk s = Inr s' \<and> pos s' = pos s + 1"
  show "num = code ! nat (pos s)"
  proof (rule ccontr)
    assume "num \<noteq> code ! nat (pos s)"
    from checkcode_wrong [OF assms this] a assms(2) show False by auto
  qed
qed

theorem checkcode_mismatch_resets_witness:
  "getvalue (numstrs ! 5) (replicate 100 (51, 0)) 1
     = Inr (5, [SerialPrint ''1'', SerialPrint [CHR 0x0A], SerialPrintlnBuf (numstrs ! 5),
                SerialPrintlnNum 5])
   \<and> code ! 2 = 6
   \<and> checkcode (numstrs ! 5)
        \<lparr>pulses = replicate 100 (51, 0), currentpulse = 1, servopos = 0, pos = 2, events = []\<rparr>
     = Inr \<lparr>pulses = replicate 100 (51, 0), currentpulse = 1, servopos = 0, pos = 0,
            events = [SerialPrint ''1'', SerialPrint [CHR 0x0A], SerialPrintlnBuf (numstrs ! 5),
                      SerialPrintlnNum 5, Tone buzzer 250, Delay 300, NoTone buzzer]\<rparr>"
proof -
  let ?s = "\<lparr>pulses = replicate 100 (51, 0), currentpulse = 1, servopos = 0, pos = 2, events = []\<rparr>"
  let ?out = "[SerialPrint ''1'', SerialPrint [CHR 0x0A], SerialPrintlnBuf (numstrs ! 5),
                SerialPrintlnNum 5]"
  have gv: "getvalue (numstrs ! 5) (replicate 100 (51, 0)) 1 = Inr (5, ?out)"
    by code_simp
  then have gv': "getvalue (numstrs ! 5) (pulses ?s) (currentpulse ?s) = Inr (5, ?out)"
    by simp
  have c: "code ! 2 = 6" by (simp add: code_def)
  from checkcode_mismatch_resets [OF gv'] c gv show ?thesis
    by simp
qed

text \<open>
  C9. The lock position stays in 0..7. A call of \<open>checkcode\<close> at a position 0..7
  (with at most 100 pairs captured) returns, and leaves a position 0..7; and after any
  number of calls of \<open>loop\<close> from the initial state, on any readings of the pin, the
  position is in 0..7.
\<close>

theorem lock_position_invariant:
  "(0 \<le> pos s \<and> pos s < 8 \<and> unat (currentpulse s) \<le> 100 \<longrightarrow>
      (\<exists>s'. checkcode junk s = Inr s' \<and> 0 \<le> pos s' \<and> pos s' < 8))
   \<and> (main_loop junks trace initial_state = Returned t rest \<longrightarrow> 0 \<le> pos t \<and> pos t < 8)"
proof (rule conjI; rule impI)
  assume a: "0 \<le> pos s \<and> pos s < 8 \<and> unat (currentpulse s) \<le> 100"
  then obtain s' where s': "checkcode junk s = Inr s'"
    using checkcode_total [of s junk] by blast
  with a checkcode_pos_range [of s junk s'] show
    "\<exists>s'. checkcode junk s = Inr s' \<and> 0 \<le> pos s' \<and> pos s' < 8" by blast
next
  assume "main_loop junks trace initial_state = Returned t rest"
  from main_loop_pos_range [OF _ _ this] show "0 \<le> pos t \<and> pos t < 8"
    by (simp add: initial_state_def)
qed

theorem lock_position_invariant_witness:
  "0 \<le> pos one_captured \<and> pos one_captured < 8 \<and> unat (currentpulse one_captured) \<le> 100
   \<and> main_loop [junk0, junk0] (False # True # replicate 65000 True @ [False]) initial_state
       = Returned after_no_match [False]
   \<and> 0 \<le> pos after_no_match \<and> pos after_no_match < 8"
proof -
  have first: "loop junk0 (False # True # replicate 65000 True @ [False]) initial_state
      = Returned one_captured (replicate 65000 True @ [False])"
  proof -
    have "(replicate 100 (0 :: uint16, 0 :: uint16))[0 := (0, 0)] = replicate 100 (0, 0)"
      by code_simp
    with loop_first_pair [of initial_state junk0 0 0 "replicate 65000 True @ [False]"]
    show ?thesis by (simp add: initial_state_def one_captured_def)
  qed
  have "loop junk0 (replicate 65000 True @ [False]) one_captured
      = timed_out junk0 [False] one_captured"
    by (rule loop_high_timeout) (simp add: one_captured_def initial_state_def)
  also have "\<dots> = Returned after_no_match [False]"
    by (simp add: timed_out_def checkcode_one_captured after_no_match_def)
  finally have run: "main_loop [junk0, junk0] (False # True # replicate 65000 True @ [False])
      initial_state = Returned after_no_match [False]"
    using first by simp
  from lock_position_invariant
    [of one_captured junk0 "[junk0, junk0]" "False # True # replicate 65000 True @ [False]"
      after_no_match "[False]"] run
  show ?thesis by (simp add: one_captured_def initial_state_def)
qed

text \<open>
  C2. From position 0, let eight frames be decoded in order, the \<open>k\<close>-th of which
  \<open>getvalue\<close> decodes to the \<open>k\<close>-th digit of \<open>code\<close>. After each of the first
  seven the position has advanced by one and the servo has not been written (the angle is
  unchanged). After the eighth the position is 0 again, the angle has been toggled and
  exactly one servo write has been added.
\<close>

theorem unlock_on_eighth_digit:
  assumes "pos s = 0" and "length fs = 8"
    and "\<forall>k<8. \<exists>out. frame_value (fs ! k) = Inr (code ! k, out)"
  shows "(\<forall>k<8. \<exists>sk. decode_frames (take k fs) s = Inr sk \<and> pos sk = int k
             \<and> servopos sk = servopos s \<and> latch_writes sk = latch_writes s)
       \<and> (\<exists>s8. decode_frames fs s = Inr s8 \<and> pos s8 = 0
             \<and> servopos s8 = (if servopos s = 0 then 180 else 0)
             \<and> latch_writes s8
                 = latch_writes s @ [ServoWrite (if servopos s = 0 then 180 else 0)])"
proof -
  have prefix: "\<exists>sk. decode_frames (take k fs) s = Inr sk \<and> pos sk = int k
             \<and> servopos sk = servopos s \<and> latch_writes sk = latch_writes s" if "k < 8" for k
  proof -
    from that assms(2) have len: "length (take k fs) = k" by simp
    have "\<forall>j<length (take k fs).
        \<exists>out. frame_value (take k fs ! j) = Inr (code ! (nat (pos s) + j), out)"
      using assms(1,3) that len by simp
    from decode_frames_progress [OF _ _ this] assms(1) that len show ?thesis by simp
  qed
  from prefix [of 7] obtain s7 where s7: "decode_frames (take 7 fs) s = Inr s7"
    "pos s7 = 7" "servopos s7 = servopos s" "latch_writes s7 = latch_writes s" by auto
  from assms(3) [rule_format, of 7] obtain out
    where "frame_value (fs ! 7) = Inr (code ! 7, out)" by auto
  from decode_frames_last [OF s7(2) this] obtain s8
    where s8: "decode_frames [fs ! 7] s7 = Inr s8" "pos s8 = 0"
      "servopos s8 = (if servopos s7 = 0 then 180 else 0)"
      "latch_writes s8 = latch_writes s7 @ [ServoWrite (if servopos s7 = 0 then 180 else 0)]"
    by blast
  have "take (Suc 7) fs = take 7 fs @ [fs ! 7]"
    using assms(2) by (intro take_Suc_conv_app_nth) simp
  moreover have "take (Suc 7) fs = fs"
    using assms(2) by simp
  ultimately have "decode_frames fs s = decode_frames (take 7 fs @ [fs ! 7]) s" by simp
  also have "\<dots> = Inr s8" using s7(1) s8(1) by (simp only: decode_frames_append sum.case)
  finally have "decode_frames fs s = Inr s8" .
  with s8 s7 prefix show ?thesis by auto
qed

theorem unlock_on_eighth_digit_witness:
  "pos initial_state = 0
   \<and> length (map key_frame [5, 5, 6, 8, 7, 2, 8, 0]) = 8
   \<and> (\<exists>s7. decode_frames (take 7 (map key_frame [5, 5, 6, 8, 7, 2, 8, 0])) initial_state = Inr s7
          \<and> pos s7 = 7 \<and> servopos s7 = 0 \<and> latch_writes s7 = [])
   \<and> (\<exists>s8. decode_frames (map key_frame [5, 5, 6, 8, 7, 2, 8, 0]) initial_state = Inr s8
          \<and> pos s8 = 0 \<and> servopos s8 = 180 \<and> latch_writes s8 = [ServoWrite 180])"
proof -
  let ?fs = "map key_frame [5, 5, 6, 8, 7, 2, 8, 0]"
  have p: "pos initial_state = 0" and sv: "servopos initial_state = 0"
    and lw: "latch_writes initial_state = []"
    by (simp_all add: initial_state_def latch_writes_def)
  have len: "length ?fs = 8" by simp
  have vals: "\<forall>k<8. \<exists>out. frame_value (?fs ! k) = Inr (code ! k, out)"
  proof (intro allI impI)
    fix k :: nat assume "k < 8"
    then have "k \<in> {0, 1, 2, 3, 4, 5, 6, 7}" by auto
    then show "\<exists>out. frame_value (?fs ! k) = Inr (code ! k, out)"
      using key_frame_value [of 5] key_frame_value [of 6] key_frame_value [of 8]
        key_frame_value [of 7] key_frame_value [of 2] key_frame_value [of 0]
      by (auto simp: code_def)
  qed
  from unlock_on_eighth_digit [OF p len vals] have
    a: "\<forall>k<8. \<exists>sk. decode_frames (take k ?fs) initial_state = Inr sk \<and> pos sk = int k
             \<and> servopos sk = servopos initial_state
             \<and> latch_writes sk = latch_writes initial_state"
    and b: "\<exists>s8. decode_frames ?fs initial_state = Inr s8 \<and> pos s8 = 0
             \<and> servopos s8 = (if servopos initial_state = 0 then 180 else 0)
             \<and> latch_writes s8 = latch_writes initial_state
                  @ [ServoWrite (if servopos initial_state = 0 then 180 else 0)]"
    by blast+
  from a [rule_format, of 7] b p len sv lw show ?thesis by simp
qed

section \<open>The capture loop\<close>

text \<open>
  C7. Let \<open>loop\<close> be entered with no pulse pair captured (\<open>currentpulse = 0\<close>). On
  any readings of the pin the call either is still polling or returns with the pair
  stored in row 0 and \<open>currentpulse = 1\<close>; it never calls \<open>checkcode\<close>, so the
  position, the servo angle and the event log (serial output, buzzer, servo) are as
  before. This holds for phases of any length \<open>n\<close> and \<open>m\<close>, also 65000 polls and
  more: the counters wrap modulo 65536 and the call returns when the phases end.
\<close>

theorem idle_timeout_ignored:
  assumes "currentpulse s = 0" and "length (pulses s) = 100"
  shows "(loop junk trace s = StillPolling
          \<or> (\<exists>h l rest. loop junk trace s
                = Returned (s\<lparr>pulses := (pulses s)[0 := (h, l)], currentpulse := 1\<rparr>) rest))
       \<and> (\<forall>s' rest. loop junk trace s = Returned s' rest \<longrightarrow>
             pos s' = pos s \<and> servopos s' = servopos s \<and> events s' = events s)
       \<and> loop junk (replicate n True @ False # replicate m False @ True # rest') s
           = Returned (s\<lparr>pulses := (pulses s)[0 := (of_nat n, of_nat m)], currentpulse := 1\<rparr>)
               rest'"
proof (intro conjI allI impI)
  show "loop junk trace s = StillPolling
          \<or> (\<exists>h l rest. loop junk trace s
                = Returned (s\<lparr>pulses := (pulses s)[0 := (h, l)], currentpulse := 1\<rparr>) rest)"
    by (rule loop_idle [OF assms])
next
  fix s' rest
  assume "loop junk trace s = Returned s' rest"
  with loop_idle [OF assms, of junk trace]
  show "pos s' = pos s" "servopos s' = servopos s" "events s' = events s"
    by auto
next
  show "loop junk (replicate n True @ False # replicate m False @ True # rest') s
           = Returned (s\<lparr>pulses := (pulses s)[0 := (of_nat n, of_nat m)], currentpulse := 1\<rparr>)
               rest'"
    by (rule loop_first_pair [OF assms])
qed

theorem idle_timeout_ignored_witness:
  "currentpulse initial_state = 0
   \<and> length (pulses initial_state) = 100
   \<and> loop junk0 (replicate 65000 True @ False # replicate 70000 False @ True # []) initial_state
       = Returned (initial_state\<lparr>pulses := (pulses initial_state)[0 := (65000, 4464)],
                                 currentpulse := 1\<rparr>) []"
proof -
  have a: "currentpulse initial_state = 0" and b: "length (pulses initial_state) = 100"
    by (simp_all add: initial_state_def)
  have "(70000 :: uint16) = 4464"
    by simp
  with idle_timeout_ignored [OF a b, of junk0 "[]" 65000 70000 "[]"] a b
  show ?thesis by simp
qed

text \<open>
  C8. Let \<open>loop\<close> be entered with at least one pulse pair captured
  (\<open>currentpulse \<noteq> 0\<close>) at a lock position 0..7. If the pin stays HIGH for 65000
  polls, \<open>checkcode\<close> runs on the state as it is and the call returns its result with
  \<open>currentpulse = 0\<close>. If the HIGH phase ends after \<open>n < 65000\<close> polls and the pin
  then stays LOW for 65000 polls, \<open>checkcode\<close> runs on the state with \<open>n\<close> stored
  in column 0 of the current row, and the call returns its result with
  \<open>currentpulse = 0\<close>. The second case needs a free row (\<open>currentpulse < 100\<close>) for
  the store that precedes the LOW phase.
\<close>

theorem timeout_hands_over:
  assumes "currentpulse s \<noteq> 0" and "0 \<le> pos s" and "pos s < 8"
  shows "(unat (currentpulse s) \<le> 100 \<longrightarrow>
            (\<exists>s'. checkcode junk s = Inr s'
               \<and> loop junk (replicate 65000 True @ rest) s
                   = Returned (s'\<lparr>currentpulse := 0\<rparr>) rest))
       \<and> (unat (currentpulse s) < 100 \<and> n < 65000 \<longrightarrow>
            (\<exists>s'. checkcode junk
                     (s\<lparr>pulses := (pulses s)[unat (currentpulse s)
                            := (of_nat n, snd (pulses s ! unat (currentpulse s)))]\<rparr>) = Inr s'
               \<and> loop junk (replicate n True @ False # replicate 65000 False @ rest) s
                   = Returned (s'\<lparr>currentpulse := 0\<rparr>) rest))"
proof (rule conjI; rule impI)
  assume le: "unat (currentpulse s) \<le> 100"
  from checkcode_total [OF assms(2,3) le] obtain s' where s': "checkcode junk s = Inr s'"
    by blast
  with loop_high_timeout [OF assms(1), of junk rest]
  show "\<exists>s'. checkcode junk s = Inr s'
          \<and> loop junk (replicate 65000 True @ rest) s = Returned (s'\<lparr>currentpulse := 0\<rparr>) rest"
    by (simp add: timed_out_def)
next
  assume a: "unat (currentpulse s) < 100 \<and> n < 65000"
  let ?s1 = "s\<lparr>pulses := (pulses s)[unat (currentpulse s)
                            := (of_nat n, snd (pulses s ! unat (currentpulse s)))]\<rparr>"
  from a assms(2,3) have "0 \<le> pos ?s1" "pos ?s1 < 8" "unat (currentpulse ?s1) \<le> 100"
    by simp_all
  from checkcode_total [OF this] obtain s' where s': "checkcode junk ?s1 = Inr s'"
    by blast
  with loop_low_timeout [OF assms(1), of n junk rest] a
  show "\<exists>s'. checkcode junk ?s1 = Inr s'
          \<and> loop junk (replicate n True @ False # replicate 65000 False @ rest) s
              = Returned (s'\<lparr>currentpulse := 0\<rparr>) rest"
    by (simp add: timed_out_def)
qed

theorem timeout_hands_over_witness:
  "currentpulse one_captured \<noteq> 0 \<and> 0 \<le> pos one_captured \<and> pos one_captured < 8
   \<and> unat (currentpulse one_captured) < 100
   \<and> loop junk0 (replicate 65000 True @ [True]) one_captured = Returned after_no_match [True]
   \<and> (\<exists>s'. checkcode junk0
              (one_captured\<lparr>pulses := (pulses one_captured)[unat (currentpulse one_captured)
                 := (of_nat 3, snd (pulses one_captured ! unat (currentpulse one_captured)))]\<rparr>)
               = Inr s'
          \<and> loop junk0 (replicate 3 True @ False # replicate 65000 False @ [True]) one_captured
               = Returned (s'\<lparr>currentpulse := 0\<rparr>) [True])"
proof -
  have h: "currentpulse one_captured \<noteq> 0" "0 \<le> pos one_captured" "pos one_captured < 8"
    and c: "unat (currentpulse one_captured) < 100"
    by (simp_all add: one_captured_def initial_state_def)
  have z: "after_no_match\<lparr>currentpulse := 1, currentpulse := 0\<rparr> = after_no_match"
    by (simp add: after_no_match_def)
  from timeout_hands_over [OF h, of junk0 "[True]" 3] h c checkcode_one_captured z
  show ?thesis by simp
qed

text \<open>
  C1. The specification requires that \<open>loop\<close> never stores a pulse pair at an index
  of 100 or more. The code has no such bound: \<open>currentpulse\<close> is only ever incremented or reset at a
  timeout. From the initial state, 101 pulse pairs of one poll per phase, with no timeout
  between them, make the 101st call of \<open>loop\<close> store at row 100, outside
  \<open>pulses[100][2]\<close>.
\<close>

theorem capture_overflow:
  "main_loop (replicate 101 junk0) (concat (replicate 101 [True, False, False, True])) initial_state
     = Faulted PulsesOutOfBounds"
proof -
  have init: "length (pulses initial_state) = 100" "unat (currentpulse initial_state) + 100 \<le> 100"
    by (simp_all add: initial_state_def)
  from main_loop_short_pairs [OF init, of junk0 "[True, False, False, True]"] obtain s'
    where run: "main_loop (replicate 100 junk0)
        (concat (replicate 100 [True, False, False, True]) @ [True, False, False, True])
        initial_state = Returned s' [True, False, False, True]"
      and full: "unat (currentpulse s') = 100"
    by (auto simp: initial_state_def)
  from full loop_overflow [of s' 1 junk0 "[False, True]"]
  have last: "loop junk0 [True, False, False, True] s' = Faulted PulsesOutOfBounds"
    by simp
  have "replicate 101 junk0 = replicate 100 junk0 @ [junk0]"
    using replicate_add [of 100 1 junk0] by simp
  moreover have "concat (replicate 101 [True, False, False, True])
      = concat (replicate 100 [True, False, False, True]) @ [True, False, False, True]"
    using replicate_add [of 100 1 "[True, False, False, True]"] by simp
  ultimately show ?thesis
    using run last by (simp only: main_loop_append loop_result.case main_loop.simps)
qed

section \<open>Decoding and matching\<close>

text \<open>
  C3. The specification compares the duration scaled by the resolution, the product of
  the two numbers, with 1000. The code computes the product in 16 bits: 3277 * 20 = 65540 becomes 4. A
  pair with a high phase of 3277 polls and a short low phase is decoded as \<open>0\<close>, where
  the specification gives \<open>1\<close>; a pair with a low phase of 3277 polls contributes the
  bit \<open>0\<close>, where the specification gives no bit. (Where no product reaches 65536, lemmas
  \<open>decode_loop_bits\<close> and \<open>code_bits_eq_spec_bits\<close> show that the loop computes what
  the specification says.)
\<close>

theorem scaled_duration_wraps:
  "decode_loop ((3277, 0) # replicate 99 (0, 0)) 1 0 0 junk0 []
     = Inr (1, CHR ''0'' # replicate 33 (CHR 0x00), [SerialPrint ''0''])
   \<and> spec_bits [(3277, 0)] = ''1''
   \<and> decode_loop ((0, 3277) # replicate 99 (0, 0)) 1 0 0 junk0 []
     = Inr (1, CHR ''0'' # replicate 33 (CHR 0x00), [SerialPrint ''0''])
   \<and> spec_bits [(0, 3277)] = []"
proof -
  have "decode_loop ((3277, 0) # replicate 99 (0, 0)) 1 0 0 junk0 []
     = Inr (1, CHR ''0'' # replicate 33 (CHR 0x00), [SerialPrint ''0''])"
    by code_simp
  moreover have "decode_loop ((0, 3277) # replicate 99 (0, 0)) 1 0 0 junk0 []
     = Inr (1, CHR ''0'' # replicate 33 (CHR 0x00), [SerialPrint ''0''])"
    by code_simp
  moreover have "spec_bits [(3277, 0)] = ''1''" "spec_bits [(0, 3277)] = []"
    by (simp_all add: spec_bits_def RESOLUTION_def)
  ultimately show ?thesis by simp
qed



text \<open>
  C5. The specification requires that fewer than 34 decoded bits never match. The code compares all 34
  bytes of \<open>str\<close>, and the bytes after the decoded bits are whatever the stack held:
  \<open>str\<close> has no initialiser. With one decoded bit \<open>1\<close> and the bytes of key 5 left
  in that place, \<open>getvalue\<close> returns 5. (Lemma \<open>short_string_no_match\<close>: the result
  is -1 whenever the first byte after the decoded bits is neither \<open>0\<close> nor \<open>1\<close>.)
\<close>

theorem stale_buffer_matches:
  "decode_loop (replicate 100 (51, 0)) 1 0 0 (numstrs ! 5) []
     = Inr (1, numstrs ! 5, [SerialPrint ''1''])
   \<and> getvalue (numstrs ! 5) (replicate 100 (51, 0)) 1
     = Inr (5, [SerialPrint ''1'', SerialPrint [CHR 0x0A], SerialPrintlnBuf (numstrs ! 5),
                SerialPrintlnNum 5])"
  by code_simp

section \<open>The environmental monitor\<close>



end
